theory Spec2Isabelle
  imports Main "HOL-Library.Word" "HOL-Library.Multiset"
begin

unbundle bit_operations_syntax

section \<open>The hashed page table of \<^verbatim>\<open>kern/vm/addrspace.c\<close>\<close>

text \<open>
  The file keeps one global hashed page table \<^verbatim>\<open>hpt\<close>: an array of \<^verbatim>\<open>hpt_size\<close> bucket
  heads, each the head of a singly linked chain of \<^verbatim>\<open>struct hpt_entry\<close>. An address space
  is identified by the address of its \<^verbatim>\<open>struct addrspace\<close>, cast to \<^verbatim>\<open>uint32_t\<close>.
  All machine values are 32-bit words (the target is MIPS32): \<^verbatim>\<open>vaddr_t\<close>, \<^verbatim>\<open>paddr_t\<close>,
  \<^verbatim>\<open>size_t\<close>, \<^verbatim>\<open>uint32_t\<close> and pointers. The \<^verbatim>\<open>int\<close> arguments are only combined bitwise,
  so they are 32-bit words as well.
\<close>

type_synonym vaddr_t = "32 word"
type_synonym paddr_t = "32 word"

subsection \<open>Constants of the headers\<close>

text \<open>
  Modelled from the spec: the machine constants of \<^verbatim>\<open>vm.h\<close>, which is not among the
  sources. The spec fixes the page size at 4096 bytes and calls the limit of a region the
  kernel-reserved virtual address boundary; on MIPS that boundary is the start of kseg0.
  \<^verbatim>\<open>PAGE_FRAME\<close> masks the page number of an address and \<^verbatim>\<open>PAGE_BITS\<close> is the width of the
  offset inside a page.
\<close>

definition PAGE_SIZE :: "32 word" where
  "PAGE_SIZE = 4096"

definition PAGE_BITS :: nat where
  "PAGE_BITS = 12"

definition PAGE_FRAME :: "32 word" where
  "PAGE_FRAME = 0xfffff000"

definition MIPS_KSEG0 :: "32 word" where
  "MIPS_KSEG0 = 0x80000000"

definition USERSTACK :: "32 word" where
  "USERSTACK = MIPS_KSEG0"

text \<open>
  The macros of \<^verbatim>\<open>addrspace.h\<close> are not among the sources either, and the spec gives no
  values for them. Every function that uses one takes them as the parameter \<open>c\<close>.
  \<^verbatim>\<open>HPTABLE_VALID\<close>, \<^verbatim>\<open>HPTABLE_GLOBAL\<close> and \<^verbatim>\<open>HPTABLE_DIRTY\<close> are bit numbers (the code
  writes \<^verbatim>\<open>1 << HPTABLE_VALID\<close>), \<^verbatim>\<open>FLAG_OFFSET\<close> is a shift distance, the others are
  masks or values.
\<close>

record hpt_macros =
  FLAG_OFFSET :: nat
  HPTABLE_VALID :: nat
  HPTABLE_GLOBAL :: nat
  HPTABLE_DIRTY :: nat
  HPTABLE_WRITE :: "32 word"
  HPTABLE_SWRITE :: "32 word"
  HPTABLE_STATEBITS :: "32 word"
  HPTABLE_STACK_RW :: "32 word"
  STACK_PAGE :: "32 word"

text \<open>
  The \<^verbatim>\<open>int\<close> results: \<open>OK\<close> is 0, the other two are the nonzero, distinct codes of
  \<^verbatim>\<open>kern/errno.h\<close>.
\<close>

datatype errno = OK | ENOMEM | EFAULT

text \<open>
  A kernel trap ends the call with no result: the dereference of a null pointer, or the
  division by \<^verbatim>\<open>hpt_size\<close> when it is 0.
\<close>

datatype 'a outcome = Done 'a | Crash

subsection \<open>The state\<close>

text \<open>
  \<^verbatim>\<open>struct hpt_entry\<close>. The \<^verbatim>\<open>next\<close> link is the order of the list that models a chain.
\<close>

record hpt_entry =
  pid :: "32 word"
  entry_hi :: "32 word"
  entry_lo :: "32 word"

text \<open>
  The kernel state the file reads and writes.
  \<^item> \<open>hpt\<close>: the bucket array, each chain in link order; \<^verbatim>\<open>hpt_size\<close> is its length.
  \<^item> \<open>mem\<close>: the bytes of memory, by kernel virtual address (for \<^verbatim>\<open>memmove\<close>).
  \<^item> \<open>kmalloc_ans\<close>, \<open>kmalloc_cnt\<close>: the kernel heap allocator is external. Its \<open>n\<close>-th
    call answers \<open>kmalloc_ans n\<close> (0 is \<^verbatim>\<open>NULL\<close>); \<open>kmalloc_cnt\<close> counts the calls made.
  \<^item> \<open>kpages_ans\<close>, \<open>kpages_cnt\<close>: the same for the frame allocator \<^verbatim>\<open>alloc_kpages\<close>
    (0 is failure).
  \<^item> \<open>freed_kpages\<close>: the arguments of the calls of \<^verbatim>\<open>free_kpages\<close>, in call order.
  \<^item> \<open>kfreed\<close>: the address space handles given to \<^verbatim>\<open>kfree\<close>, in call order. A table
    entry has no address in this model; unlinking it stands for its \<^verbatim>\<open>kfree\<close>.
  \<^item> \<open>tlb_flushes\<close>: how often the TLB has been flushed.
  The spinlock \<^verbatim>\<open>hpt_lock\<close> is not modelled: one thread of control.
\<close>

record kernel =
  hpt :: "hpt_entry list list"
  mem :: "32 word \<Rightarrow> 8 word"
  kmalloc_ans :: "nat \<Rightarrow> 32 word"
  kmalloc_cnt :: nat
  kpages_ans :: "nat \<Rightarrow> 32 word"
  kpages_cnt :: nat
  freed_kpages :: "32 word list"
  kfreed :: "32 word list"
  tlb_flushes :: nat

definition hpt_size :: "kernel \<Rightarrow> nat" where
  "hpt_size s = length (hpt s)"

subsection \<open>The collaborators\<close>

definition kmalloc :: "kernel \<Rightarrow> 32 word \<times> kernel" where
  "kmalloc s = (kmalloc_ans s (kmalloc_cnt s), s\<lparr>kmalloc_cnt := Suc (kmalloc_cnt s)\<rparr>)"

definition kfree :: "32 word \<Rightarrow> kernel \<Rightarrow> kernel" where
  "kfree p s = s\<lparr>kfreed := kfreed s @ [p]\<rparr>"

definition alloc_kpages :: "kernel \<Rightarrow> 32 word \<times> kernel" where
  "alloc_kpages s = (kpages_ans s (kpages_cnt s), s\<lparr>kpages_cnt := Suc (kpages_cnt s)\<rparr>)"

definition free_kpages :: "32 word \<Rightarrow> kernel \<Rightarrow> kernel" where
  "free_kpages a s = s\<lparr>freed_kpages := freed_kpages s @ [a]\<rparr>"

text \<open>
  \<^verbatim>\<open>memmove(dst, src, n)\<close>: the \<open>n\<close> bytes from \<open>src\<close> appear at \<open>dst\<close>, read before any
  is written. \<open>a - dst < n\<close> is the unsigned test for \<open>a\<close> in the destination.
\<close>

definition memmove :: "32 word \<Rightarrow> 32 word \<Rightarrow> 32 word \<Rightarrow> kernel \<Rightarrow> kernel" where
  "memmove dst src n s =
     s\<lparr>mem := (\<lambda>a. if a - dst < n then mem s (src + (a - dst)) else mem s a)\<rparr>"

text \<open>\<^verbatim>\<open>tlb_flush\<close> invalidates every TLB slot.\<close>

definition tlb_flush :: "kernel \<Rightarrow> kernel" where
  "tlb_flush s = s\<lparr>tlb_flushes := Suc (tlb_flushes s)\<rparr>"

subsection \<open>Hashing and lookup\<close>

text \<open>
  \<^verbatim>\<open>hpt_hash\<close>: \<^verbatim>\<open>(((uint32_t) as) ^ (vpn >> PAGE_BITS)) % hpt_size\<close>. \<open>None\<close> is the
  division by zero.
\<close>

definition hpt_hash :: "kernel \<Rightarrow> 32 word \<Rightarrow> vaddr_t \<Rightarrow> nat option" where
  "hpt_hash s as vpn =
     (if hpt_size s = 0 then None
      else Some (unat (as XOR drop_bit PAGE_BITS vpn) mod hpt_size s))"

text \<open>The \<^verbatim>\<open>while\<close> loop of \<^verbatim>\<open>find\<close> over one chain: the first match, or \<^verbatim>\<open>NULL\<close>.\<close>

fun find_chain :: "32 word \<Rightarrow> vaddr_t \<Rightarrow> hpt_entry list \<Rightarrow> hpt_entry option" where
  "find_chain p vpn [] = None"
| "find_chain p vpn (ptr # next) =
     (if pid ptr = p \<and> vpn = entry_hi ptr AND PAGE_FRAME then Some ptr
      else find_chain p vpn next)"

definition find :: "kernel \<Rightarrow> 32 word \<Rightarrow> vaddr_t \<Rightarrow> hpt_entry option outcome" where
  "find s as vpn =
     (case hpt_hash s as vpn of
        None \<Rightarrow> Crash
      | Some index \<Rightarrow> Done (find_chain as vpn (hpt s ! index)))"

subsection \<open>Insertion\<close>

text \<open>
  The walk of \<^verbatim>\<open>insert_page_table_entry\<close> to the last entry of a chain that is not
  empty, where \<^verbatim>\<open>ptr->next = new\<close> links the new entry.
\<close>

fun link_tail :: "hpt_entry \<Rightarrow> hpt_entry list \<Rightarrow> hpt_entry list" where
  "link_tail new [] = [new]"
| "link_tail new [ptr] = [ptr, new]"
| "link_tail new (ptr # next) = ptr # link_tail new next"

text \<open>
  \<^verbatim>\<open>insert_page_table_entry\<close>. The result of \<^verbatim>\<open>kmalloc\<close> is not tested: the stores to
  \<^verbatim>\<open>new->pid\<close> and the other fields dereference it, which traps when it is \<^verbatim>\<open>NULL\<close>.
  Every return of the function is \<^verbatim>\<open>return true\<close>.
\<close>

definition insert_page_table_entry ::
  "kernel \<Rightarrow> 32 word \<Rightarrow> 32 word \<Rightarrow> 32 word \<Rightarrow> (bool \<times> kernel) outcome" where
  "insert_page_table_entry s as ehi elo =
     (let vpn = ehi AND PAGE_FRAME in
      case hpt_hash s as vpn of
        None \<Rightarrow> Crash
      | Some index \<Rightarrow>
          let (new, s1) = kmalloc s in
          if new = 0 then Crash
          else
            let e = \<lparr>pid = as, entry_hi = vpn, entry_lo = elo\<rparr> in
            if hpt s1 ! index = [] then Done (True, s1\<lparr>hpt := (hpt s1)[index := [e]]\<rparr>)
            else Done (True, s1\<lparr>hpt := (hpt s1)[index := link_tail e (hpt s1 ! index)]\<rparr>))"

subsection \<open>Region definition\<close>

text \<open>The \<^verbatim>\<open>entry_lo\<close> that \<^verbatim>\<open>define_memory\<close> builds for each page (\<^verbatim>\<open>paddr\<close> is 0).\<close>

definition region_entry_lo :: "hpt_macros \<Rightarrow> 32 word \<Rightarrow> 32 word" where
  "region_entry_lo c permissions =
     (let paddr = 0;
          lo0 = (paddr AND PAGE_FRAME) OR push_bit (HPTABLE_VALID c) 1
                  OR push_bit (HPTABLE_GLOBAL c) 1;
          lo1 = (if permissions AND HPTABLE_WRITE c \<noteq> 0
                 then lo0 OR push_bit (HPTABLE_DIRTY c) 1
                 else lo0 AND NOT (push_bit (HPTABLE_DIRTY c) 1));
          lo2 = lo1 OR permissions
      in lo2 OR HPTABLE_SWRITE c)"

text \<open>The \<^verbatim>\<open>for\<close> loop of \<^verbatim>\<open>define_memory\<close>, from \<open>start\<close> up to \<open>top'\<close>.\<close>

function define_memory_loop ::
  "hpt_macros \<Rightarrow> kernel \<Rightarrow> 32 word \<Rightarrow> 32 word \<Rightarrow> 32 word \<Rightarrow> 32 word
     \<Rightarrow> (errno \<times> kernel) outcome" where
  "define_memory_loop c s as permissions start top' =
     (if start < top' then
        (case insert_page_table_entry s as (push_bit (FLAG_OFFSET c) start)
                (region_entry_lo c permissions) of
           Crash \<Rightarrow> Crash
         | Done (ok, s') \<Rightarrow>
             if \<not> ok then Done (ENOMEM, s')
             else define_memory_loop c s' as permissions (start + 1) top')
      else Done (OK, s))"
  by pat_completeness auto

lemma word_less_Suc_unat:
  fixes start :: "32 word"
  assumes "start < top'"
  shows "unat (start + 1) = Suc (unat start)"
proof -
  have "unat start < unat top'"
    using assms by (simp add: word_less_nat_alt)
  moreover have "unat top' < 2 ^ 32"
    using unsigned_less [of top', where ?'a = nat] by simp
  ultimately have "unat start + unat (1 :: 32 word) < 2 ^ LENGTH(32)"
    by simp
  then have "unat (start + 1) = unat start + unat (1 :: 32 word)"
    by (simp only: unat_add_lem)
  then show ?thesis
    by simp
qed

termination define_memory_loop
proof (relation "measure (\<lambda>(c, s, as, permissions, start, top'). unat top' - unat start)")
  show "wf (measure (\<lambda>(c, s, as, permissions, start, top'). unat top' - unat start))"
    by simp
next
  fix c :: hpt_macros and s :: kernel and as permissions start top' :: "32 word"
  fix x2 :: "bool \<times> kernel" and x y
  assume "start < top'"
  then have "unat start < unat top'" and "unat (start + 1) = Suc (unat start)"
    by (simp_all add: word_less_nat_alt word_less_Suc_unat)
  then show "((c, y, as, permissions, start + 1, top'), c, s, as, permissions, start, top')
      \<in> measure (\<lambda>(c, s, as, permissions, start, top'). unat top' - unat start)"
    by simp
qed

declare define_memory_loop.simps [simp del]

definition define_memory ::
  "hpt_macros \<Rightarrow> kernel \<Rightarrow> 32 word \<Rightarrow> vaddr_t \<Rightarrow> 32 word \<Rightarrow> 32 word
     \<Rightarrow> (errno \<times> kernel) outcome" where
  "define_memory c s as addr memsize permissions =
     (if addr + memsize > MIPS_KSEG0 then Done (EFAULT, s)
      else
        let top' = (addr + memsize + PAGE_SIZE - 1) div PAGE_SIZE;
            base = addr div PAGE_SIZE
        in define_memory_loop c s as permissions base top')"

definition as_define_region ::
  "hpt_macros \<Rightarrow> kernel \<Rightarrow> 32 word \<Rightarrow> vaddr_t \<Rightarrow> 32 word \<Rightarrow> 32 word \<Rightarrow> 32 word \<Rightarrow> 32 word
     \<Rightarrow> (errno \<times> kernel) outcome" where
  "as_define_region c s as vaddr memsize readable writeable executable =
     (case define_memory c s as vaddr memsize
             (push_bit 1 (readable OR writeable OR executable)) of
        Crash \<Rightarrow> Crash
      | Done (result, s') \<Rightarrow> if result \<noteq> OK then Done (ENOMEM, s') else Done (OK, s'))"

text \<open>\<^verbatim>\<open>as_define_stack\<close> also stores \<^verbatim>\<open>USERSTACK\<close> through \<^verbatim>\<open>stackptr\<close>: the second result.\<close>

definition as_define_stack ::
  "hpt_macros \<Rightarrow> kernel \<Rightarrow> 32 word \<Rightarrow> (errno \<times> vaddr_t \<times> kernel) outcome" where
  "as_define_stack c s as =
     (let stackptr = USERSTACK;
          location = USERSTACK - PAGE_SIZE * STACK_PAGE c
      in case define_memory c s as location (PAGE_SIZE * STACK_PAGE c)
                (push_bit 1 (HPTABLE_STACK_RW c)) of
           Crash \<Rightarrow> Crash
         | Done (result, s') \<Rightarrow>
             if result \<noteq> OK then Done (ENOMEM, stackptr, s') else Done (OK, stackptr, s'))"

subsection \<open>Creation, duplication, destruction\<close>

text \<open>\<^verbatim>\<open>as_create\<close>: the handle, or \<^verbatim>\<open>NULL\<close> (0) when \<^verbatim>\<open>kmalloc\<close> fails.\<close>

definition as_create :: "kernel \<Rightarrow> 32 word \<times> kernel" where
  "as_create s =
     (let (as, s1) = kmalloc s in
      if as = 0 then (0, s1) else (as, tlb_flush s1))"

text \<open>
  The inner \<^verbatim>\<open>while\<close> loop of \<^verbatim>\<open>as_destroy\<close> over one chain: the chain that is left and
  the state after the calls of \<^verbatim>\<open>free_kpages\<close>. An entry of another owner stays
  (\<^verbatim>\<open>prev_ptr = ptr\<close>); an entry of \<open>p\<close> has its frame field given to \<^verbatim>\<open>free_kpages\<close> and is
  unlinked.
\<close>

fun as_destroy_chain :: "32 word \<Rightarrow> hpt_entry list \<Rightarrow> kernel \<Rightarrow> hpt_entry list \<times> kernel" where
  "as_destroy_chain p [] s = ([], s)"
| "as_destroy_chain p (ptr # next) s =
     (if pid ptr \<noteq> p then
        (let (rest, s') = as_destroy_chain p next s in (ptr # rest, s'))
      else as_destroy_chain p next (free_kpages (entry_lo ptr AND PAGE_FRAME) s))"

text \<open>The outer \<^verbatim>\<open>for\<close> loop of \<^verbatim>\<open>as_destroy\<close>, bucket by bucket from index 0.\<close>

fun as_destroy_buckets ::
  "32 word \<Rightarrow> hpt_entry list list \<Rightarrow> kernel \<Rightarrow> hpt_entry list list \<times> kernel" where
  "as_destroy_buckets p [] s = ([], s)"
| "as_destroy_buckets p (bucket # buckets) s =
     (let (chain', s1) = as_destroy_chain p bucket s;
          (chains', s2) = as_destroy_buckets p buckets s1
      in (chain' # chains', s2))"

definition as_destroy :: "kernel \<Rightarrow> 32 word \<Rightarrow> kernel" where
  "as_destroy s as =
     (let (table, s1) = as_destroy_buckets as (hpt s) s
      in kfree as (tlb_flush (s1\<lparr>hpt := table\<rparr>)))"

text \<open>
  The two nested loops of \<^verbatim>\<open>as_copy\<close>. \<open>i\<close> is the bucket index and \<open>j\<close> the position of
  \<^verbatim>\<open>ptr\<close> in the chain of bucket \<open>i\<close>; \<^verbatim>\<open>ptr == NULL\<close> is \<open>j\<close> past the end of the chain.
  Insertion only links at the tail of a chain, so a position keeps its entry while the
  loop runs.

  After an entry of \<open>old\<close> has been copied, the body of the \<^verbatim>\<open>while\<close> loop ends without
  \<^verbatim>\<open>ptr = ptr->next\<close>: the next iteration is at the same \<open>j\<close>. The loop need not end, so
  it takes fuel: \<open>None\<close> is "has not returned within \<open>n\<close> iterations".

  When \<^verbatim>\<open>alloc_kpages\<close> fails, the function returns \<^verbatim>\<open>ENOMEM\<close> and does not call
  \<^verbatim>\<open>as_destroy\<close>; when the insertion reports failure, it does.
\<close>

fun as_copy_loop ::
  "nat \<Rightarrow> hpt_macros \<Rightarrow> kernel \<Rightarrow> 32 word \<Rightarrow> 32 word \<Rightarrow> nat \<Rightarrow> nat
     \<Rightarrow> (errno \<times> kernel) outcome option" where
  "as_copy_loop 0 c s old newas i j = None"
| "as_copy_loop (Suc n) c s old newas i j =
     (if \<not> i < hpt_size s then Some (Done (OK, s))
      else if \<not> j < length (hpt s ! i) then as_copy_loop n c s old newas (Suc i) 0
      else
        let ptr = hpt s ! i ! j in
        if pid ptr \<noteq> old then as_copy_loop n c s old newas i (Suc j)
        else
          let old_entry_lo = entry_lo ptr AND PAGE_FRAME;
              (new_entry_lo, s1) =
                 (if old_entry_lo \<noteq> 0 then alloc_kpages s else (old_entry_lo, s))
          in
          if old_entry_lo \<noteq> 0 \<and> new_entry_lo = 0 then Some (Done (ENOMEM, s1))
          else
            let s2 = (if old_entry_lo \<noteq> 0 then memmove new_entry_lo old_entry_lo PAGE_SIZE s1
                      else s1);
                new_entry_lo' = new_entry_lo OR
                  ((entry_lo ptr AND HPTABLE_STATEBITS c) OR
                   (entry_lo ptr AND push_bit (HPTABLE_DIRTY c) 1) OR
                   (entry_lo ptr AND push_bit (HPTABLE_VALID c) 1) OR
                   (entry_lo ptr AND push_bit (HPTABLE_GLOBAL c) 1))
            in
            (case insert_page_table_entry s2 newas (entry_hi ptr) new_entry_lo' of
               Crash \<Rightarrow> Some Crash
             | Done (ok, s3) \<Rightarrow>
                 if \<not> ok then Some (Done (ENOMEM, as_destroy s3 newas))
                 else as_copy_loop n c s3 old newas i j))"

text \<open>
  \<^verbatim>\<open>as_copy\<close> with fuel \<open>n\<close> for its loops. The second component is what was stored through
  \<^verbatim>\<open>ret\<close>: the new handle on success, nothing otherwise.
\<close>

definition as_copy ::
  "nat \<Rightarrow> hpt_macros \<Rightarrow> kernel \<Rightarrow> 32 word
     \<Rightarrow> (errno \<times> 32 word option \<times> kernel) outcome option" where
  "as_copy n c s old =
     (let (newas, s0) = as_create s in
      if newas = 0 then Some (Done (ENOMEM, None, s0))
      else
        (case as_copy_loop n c s0 old newas 0 0 of
           None \<Rightarrow> None
         | Some Crash \<Rightarrow> Some Crash
         | Some (Done (result, s')) \<Rightarrow>
             if result = OK then Some (Done (OK, Some newas, s'))
             else Some (Done (result, None, s'))))"

subsection \<open>Loading, activation\<close>

definition as_prepare_load :: "kernel \<Rightarrow> 32 word \<Rightarrow> errno \<times> kernel" where
  "as_prepare_load s as = (OK, s)"

text \<open>The inner \<^verbatim>\<open>while\<close> loop of \<^verbatim>\<open>as_complete_load\<close> over one chain.\<close>

fun as_complete_load_chain :: "hpt_macros \<Rightarrow> 32 word \<Rightarrow> hpt_entry list \<Rightarrow> hpt_entry list" where
  "as_complete_load_chain c p [] = []"
| "as_complete_load_chain c p (ptr # next) =
     (if pid ptr = p then ptr\<lparr>entry_lo := entry_lo ptr AND NOT (HPTABLE_SWRITE c)\<rparr> else ptr)
       # as_complete_load_chain c p next"

text \<open>The outer \<^verbatim>\<open>for\<close> loop, bucket by bucket from index 0.\<close>

fun as_complete_load_buckets ::
  "hpt_macros \<Rightarrow> 32 word \<Rightarrow> hpt_entry list list \<Rightarrow> hpt_entry list list" where
  "as_complete_load_buckets c p [] = []"
| "as_complete_load_buckets c p (bucket # buckets) =
     as_complete_load_chain c p bucket # as_complete_load_buckets c p buckets"

definition as_complete_load :: "hpt_macros \<Rightarrow> kernel \<Rightarrow> 32 word \<Rightarrow> errno \<times> kernel" where
  "as_complete_load c s as =
     (OK, tlb_flush (s\<lparr>hpt := as_complete_load_buckets c as (hpt s)\<rparr>))"

text \<open>
  \<^verbatim>\<open>as_activate\<close> and \<^verbatim>\<open>as_deactivate\<close>; \<open>curas\<close> is what \<^verbatim>\<open>proc_getas\<close> returns, 0 for
  \<^verbatim>\<open>NULL\<close>.
\<close>

definition as_activate :: "32 word \<Rightarrow> kernel \<Rightarrow> kernel" where
  "as_activate curas s = (if curas = 0 then s else tlb_flush s)"

definition as_deactivate :: "32 word \<Rightarrow> kernel \<Rightarrow> kernel" where
  "as_deactivate curas s = (if curas = 0 then s else tlb_flush s)"

section \<open>Predicates of the properties, and inputs to evaluate on\<close>

text \<open>The entry that \<^verbatim>\<open>insert_page_table_entry\<close> fills in.\<close>

definition new_entry :: "32 word \<Rightarrow> 32 word \<Rightarrow> 32 word \<Rightarrow> hpt_entry" where
  "new_entry as ehi elo = \<lparr>pid = as, entry_hi = ehi AND PAGE_FRAME, entry_lo = elo\<rparr>"

text \<open>\<open>as\<close> owns an entry of the table.\<close>

definition owns :: "kernel \<Rightarrow> 32 word \<Rightarrow> bool" where
  "owns s as = (\<exists>e \<in> set (concat (hpt s)). pid e = as)"

text \<open>No entry of \<open>as\<close> has a frame: the frame field of \<^verbatim>\<open>entry_lo\<close> is 0.\<close>

definition unassigned :: "kernel \<Rightarrow> 32 word \<Rightarrow> bool" where
  "unassigned s as = (\<forall>e \<in> set (concat (hpt s)). pid e = as \<longrightarrow> entry_lo e AND PAGE_FRAME = 0)"

text \<open>
  An entry of \<open>old\<close> lies at or after position \<open>j\<close> of bucket \<open>i\<close>, in the order in which
  the loops of \<^verbatim>\<open>as_copy\<close> walk the table.
\<close>

definition pending :: "kernel \<Rightarrow> 32 word \<Rightarrow> nat \<Rightarrow> nat \<Rightarrow> bool" where
  "pending s old i j =
     (\<exists>i' j'. i' < length (hpt s) \<and> j' < length (hpt s ! i') \<and> pid (hpt s ! i' ! j') = old
        \<and> (i < i' \<or> (i = i' \<and> j \<le> j')))"

text \<open>
  Values for the macros of \<^verbatim>\<open>addrspace.h\<close> to evaluate on: the bit numbers of the MIPS
  \<^verbatim>\<open>entry_lo\<close>, the page number in the upper 20 bits of \<^verbatim>\<open>entry_hi\<close>, the permissions
  \<^verbatim>\<open>(readable|writeable|executable) << 1\<close> of an ELF segment in bits 1 to 3 and the
  load-time write bit in bit 0.
\<close>

definition example_macros :: hpt_macros where
  "example_macros =
     \<lparr>FLAG_OFFSET = 12, HPTABLE_VALID = 9, HPTABLE_GLOBAL = 8, HPTABLE_DIRTY = 10,
      HPTABLE_WRITE = 4, HPTABLE_SWRITE = 1, HPTABLE_STATEBITS = 0xF,
      HPTABLE_STACK_RW = 6, STACK_PAGE = 16\<rparr>"

text \<open>An allocator that answers the listed values in turn and fails from then on.\<close>

definition answers :: "32 word list \<Rightarrow> nat \<Rightarrow> 32 word" where
  "answers xs n = (if n < length xs then xs ! n else 0)"

text \<open>A state with the given table and allocators, before any call.\<close>

definition boot_kernel ::
  "hpt_entry list list \<Rightarrow> (nat \<Rightarrow> 32 word) \<Rightarrow> (nat \<Rightarrow> 32 word) \<Rightarrow> kernel" where
  "boot_kernel table heap frames =
     \<lparr>hpt = table, mem = (\<lambda>a. 0), kmalloc_ans = heap, kmalloc_cnt = 0,
      kpages_ans = frames, kpages_cnt = 0, freed_kpages = [], kfreed = [], tlb_flushes = 0\<rparr>"

text \<open>
  A sequence of region definitions, each a call of \<^verbatim>\<open>as_define_region\<close> with its
  arguments, run one after the other whatever each call returns; a trap ends the run.
\<close>

type_synonym region = "32 word \<times> vaddr_t \<times> 32 word \<times> 32 word \<times> 32 word \<times> 32 word"

fun define_regions :: "hpt_macros \<Rightarrow> kernel \<Rightarrow> region list \<Rightarrow> kernel outcome" where
  "define_regions c s [] = Done s"
| "define_regions c s ((as, vaddr, memsize, readable, writeable, executable) # rs) =
     (case as_define_region c s as vaddr memsize readable writeable executable of
        Crash \<Rightarrow> Crash
      | Done (result, s') \<Rightarrow> define_regions c s' rs)"

text \<open>The key of an entry: its owner and its virtual tag.\<close>

definition entry_key :: "hpt_entry \<Rightarrow> 32 word \<times> 32 word" where
  "entry_key e = (pid e, entry_hi e)"

definition table_keys :: "kernel \<Rightarrow> (32 word \<times> 32 word) list" where
  "table_keys s = map entry_key (concat (hpt s))"

text \<open>
  The keys that the loop of \<^verbatim>\<open>define_memory\<close> inserts for the page numbers from \<open>start\<close>
  up to \<open>top'\<close>, and those of a whole call of \<^verbatim>\<open>as_define_region\<close>: none when the range
  is refused.
\<close>

definition page_keys :: "hpt_macros \<Rightarrow> 32 word \<Rightarrow> 32 word \<Rightarrow> 32 word \<Rightarrow> (32 word \<times> 32 word) list" where
  "page_keys c as start top' =
     map (\<lambda>n. (as, push_bit (FLAG_OFFSET c) (of_nat n) AND PAGE_FRAME)) [unat start ..< unat top']"

fun region_keys :: "hpt_macros \<Rightarrow> region \<Rightarrow> (32 word \<times> 32 word) list" where
  "region_keys c (as, vaddr, memsize, readable, writeable, executable) =
     (if vaddr + memsize > MIPS_KSEG0 then []
      else page_keys c as (vaddr div PAGE_SIZE) ((vaddr + memsize + PAGE_SIZE - 1) div PAGE_SIZE))"

text \<open>
  The operations of the file on the table, to say what happens between an insertion and a
  later lookup; a trap ends a run. \<open>touches x as\<close>: the operation \<open>x\<close> removes or rewrites
  entries of \<open>as\<close>.
\<close>

datatype table_op =
    Insert "32 word" "32 word" "32 word"
  | DefineRegion "32 word" vaddr_t "32 word" "32 word" "32 word" "32 word"
  | CompleteLoad "32 word"
  | Destroy "32 word"

fun table_step :: "hpt_macros \<Rightarrow> kernel \<Rightarrow> table_op \<Rightarrow> kernel outcome" where
  "table_step c s (Insert as ehi elo) =
     (case insert_page_table_entry s as ehi elo of Crash \<Rightarrow> Crash | Done (ok, s') \<Rightarrow> Done s')"
| "table_step c s (DefineRegion as vaddr memsize readable writeable executable) =
     (case as_define_region c s as vaddr memsize readable writeable executable of
        Crash \<Rightarrow> Crash
      | Done (result, s') \<Rightarrow> Done s')"
| "table_step c s (CompleteLoad as) = Done (snd (as_complete_load c s as))"
| "table_step c s (Destroy as) = Done (as_destroy s as)"

fun table_steps :: "hpt_macros \<Rightarrow> kernel \<Rightarrow> table_op list \<Rightarrow> kernel outcome" where
  "table_steps c s [] = Done s"
| "table_steps c s (x # xs) =
     (case table_step c s x of Crash \<Rightarrow> Crash | Done s' \<Rightarrow> table_steps c s' xs)"

fun touches :: "table_op \<Rightarrow> 32 word \<Rightarrow> bool" where
  "touches (CompleteLoad b) as = (b = as)"
| "touches (Destroy b) as = (b = as)"
| "touches (Insert b ehi elo) as = False"
| "touches (DefineRegion b vaddr memsize readable writeable executable) as = False"

section \<open>What the loops compute\<close>

lemma link_tail_append: "link_tail new xs = xs @ [new]"
  by (induction new xs rule: link_tail.induct) simp_all


lemma insert_page_table_entry_eq:
  "insert_page_table_entry s as ehi elo =
     (case hpt_hash s as (ehi AND PAGE_FRAME) of
        None \<Rightarrow> Crash
      | Some index \<Rightarrow>
          if kmalloc_ans s (kmalloc_cnt s) = 0 then Crash
          else Done (True, s\<lparr>kmalloc_cnt := Suc (kmalloc_cnt s),
                 hpt := (hpt s)[index := hpt s ! index @ [new_entry as ehi elo]]\<rparr>))"
  by (simp add: insert_page_table_entry_def kmalloc_def new_entry_def link_tail_append Let_def
      split: option.split)

lemma as_destroy_chain_eq:
  "as_destroy_chain p xs s =
     (filter (\<lambda>e. pid e \<noteq> p) xs,
      s\<lparr>freed_kpages := freed_kpages s @
           map (\<lambda>e. entry_lo e AND PAGE_FRAME) (filter (\<lambda>e. pid e = p) xs)\<rparr>)"
  by (induction xs arbitrary: s) (simp_all add: free_kpages_def)

lemma as_destroy_buckets_eq:
  "as_destroy_buckets p t s =
     (map (filter (\<lambda>e. pid e \<noteq> p)) t,
      s\<lparr>freed_kpages := freed_kpages s @
           map (\<lambda>e. entry_lo e AND PAGE_FRAME) (filter (\<lambda>e. pid e = p) (concat t))\<rparr>)"
  by (induction t arbitrary: s) (simp_all add: as_destroy_chain_eq)

lemma as_destroy_eq:
  "as_destroy s as =
     s\<lparr>hpt := map (filter (\<lambda>e. pid e \<noteq> as)) (hpt s),
       freed_kpages := freed_kpages s @
           map (\<lambda>e. entry_lo e AND PAGE_FRAME) (filter (\<lambda>e. pid e = as) (concat (hpt s))),
       kfreed := kfreed s @ [as],
       tlb_flushes := Suc (tlb_flushes s)\<rparr>"
  by (simp add: as_destroy_def as_destroy_buckets_eq kfree_def tlb_flush_def)

lemma count_list_append: "count_list (xs @ ys) a = count_list xs a + count_list ys a"
  by (induction xs) simp_all

lemma count_list_map_filter:
  "count_list (map f xs) a = length (filter (\<lambda>x. f x = a) xs)"
  by (induction xs) simp_all

lemma as_complete_load_chain_eq:
  "as_complete_load_chain c p xs =
     map (\<lambda>e. if pid e = p then e\<lparr>entry_lo := entry_lo e AND NOT (HPTABLE_SWRITE c)\<rparr> else e) xs"
  by (induction xs) simp_all

lemma as_complete_load_buckets_eq:
  "as_complete_load_buckets c p t =
     map (map (\<lambda>e. if pid e = p then e\<lparr>entry_lo := entry_lo e AND NOT (HPTABLE_SWRITE c)\<rparr>
                    else e)) t"
  by (induction t) (simp_all add: as_complete_load_chain_eq)

section \<open>The loop of \<^verbatim>\<open>as_copy\<close>\<close>

lemma pending_bucket: "pending s old i j \<Longrightarrow> i < hpt_size s"
  by (auto simp: pending_def hpt_size_def)

lemma pending_next_bucket:
  assumes "pending s old i j" and "\<not> j < length (hpt s ! i)"
  shows "pending s old (Suc i) 0"
proof -
  from assms(1) obtain i' j' where h: "i' < length (hpt s)" "j' < length (hpt s ! i')"
      "pid (hpt s ! i' ! j') = old" "i < i' \<or> (i = i' \<and> j \<le> j')"
    unfolding pending_def by blast
  from h(2,4) assms(2) have "i < i'"
    by auto
  then have "Suc i < i' \<or> (Suc i = i' \<and> 0 \<le> j')"
    by auto
  with h(1-3) show ?thesis
    unfolding pending_def by blast
qed

lemma pending_next_entry:
  assumes "pending s old i j" and "pid (hpt s ! i ! j) \<noteq> old"
  shows "pending s old i (Suc j)"
proof -
  from assms(1) obtain i' j' where h: "i' < length (hpt s)" "j' < length (hpt s ! i')"
      "pid (hpt s ! i' ! j') = old" "i < i' \<or> (i = i' \<and> j \<le> j')"
    unfolding pending_def by blast
  from h(3,4) assms(2) have "i < i' \<or> (i = i' \<and> Suc j \<le> j')"
    by (cases "j = j'") auto
  with h(1-3) show ?thesis
    unfolding pending_def by blast
qed

lemma pending_insert:
  assumes "pending s old i j"
    and "insert_page_table_entry s2 as ehi elo = Done (ok, s3)"
    and "hpt s2 = hpt s"
  shows "pending s3 old i j"
proof -
  from assms(1) obtain i' j' where h: "i' < length (hpt s)" "j' < length (hpt s ! i')"
      "pid (hpt s ! i' ! j') = old" "i < i' \<or> (i = i' \<and> j \<le> j')"
    unfolding pending_def by blast
  from assms(2) obtain index where
    s3: "hpt s3 = (hpt s2)[index := hpt s2 ! index @ [new_entry as ehi elo]]"
    by (auto simp: insert_page_table_entry_eq split: option.splits if_splits)
  have len: "length (hpt s3) = length (hpt s)"
    by (simp add: s3 assms(3))
  have "j' < length (hpt s3 ! i')" and "hpt s3 ! i' ! j' = hpt s ! i' ! j'"
    using h(1,2) by (cases "index = i'"; simp add: s3 assms(3) nth_append)+
  with len h have "i' < length (hpt s3) \<and> j' < length (hpt s3 ! i')
      \<and> pid (hpt s3 ! i' ! j') = old \<and> (i < i' \<or> (i = i' \<and> j \<le> j'))"
    by simp
  then show ?thesis
    unfolding pending_def by blast
qed

lemma as_copy_loop_stuck:
  "pending s old i j \<Longrightarrow> as_copy_loop n c s old newas i j \<noteq> Some (Done (OK, s'))"
proof (induction n arbitrary: s i j)
  case 0
  show ?case by simp
next
  case (Suc n)
  note pend = Suc.prems
  have i: "i < hpt_size s"
    using pend by (rule pending_bucket)
  show ?case
  proof (cases "j < length (hpt s ! i)")
    case False
    then show ?thesis
      using i Suc.IH [OF pending_next_bucket [OF pend False]] by simp
  next
    case j: True
    show ?thesis
    proof (cases "pid (hpt s ! i ! j) = old")
      case False
      then show ?thesis
        using i j Suc.IH [OF pending_next_entry [OF pend False]] by (simp add: Let_def)
    next
      case True
      have rec: "as_copy_loop n c s3 old newas i j \<noteq> Some (Done (OK, s'))"
        if "insert_page_table_entry s2 newas ehi elo = Done (ok, s3)" and "hpt s2 = hpt s"
        for s2 s3 ehi elo ok
        using Suc.IH [OF pending_insert [OF pend that]] .
      show ?thesis
        using i j True
        by (auto simp: Let_def alloc_kpages_def memmove_def rec
            split: prod.splits outcome.splits if_splits)
    qed
  qed
qed

lemma owns_pending:
  assumes "owns s old"
  shows "pending s old 0 0"
proof -
  from assms obtain b e where "b \<in> set (hpt s)" "e \<in> set b" "pid e = old"
    unfolding owns_def by auto
  then obtain i' j' where "i' < length (hpt s)" "hpt s ! i' = b" "j' < length b" "b ! j' = e"
    by (metis in_set_conv_nth)
  with \<open>pid e = old\<close> have "i' < length (hpt s) \<and> j' < length (hpt s ! i')
      \<and> pid (hpt s ! i' ! j') = old \<and> (0 < i' \<or> (0 = i' \<and> 0 \<le> j'))"
    by auto
  then show ?thesis
    unfolding pending_def by blast
qed

lemma as_create_hpt: "hpt (snd (as_create s)) = hpt s"
  by (simp add: as_create_def kmalloc_def tlb_flush_def Let_def)

lemma mset_concat_update_append:
  "i < length t \<Longrightarrow> mset (concat (t[i := t ! i @ [e]])) = add_mset e (mset (concat t))"
proof (induction t arbitrary: i)
  case Nil
  then show ?case by simp
next
  case (Cons b t)
  then show ?case by (cases i) simp_all
qed

lemma insert_page_table_entry_mset:
  assumes "insert_page_table_entry s as ehi elo = Done (ok, s')"
  shows "mset (concat (hpt s')) = add_mset (new_entry as ehi elo) (mset (concat (hpt s)))"
proof -
  from assms obtain index where "hpt_hash s as (ehi AND PAGE_FRAME) = Some index"
    and s': "hpt s' = (hpt s)[index := hpt s ! index @ [new_entry as ehi elo]]"
    by (auto simp: insert_page_table_entry_eq split: option.splits if_splits)
  then have "index < length (hpt s)"
    by (auto simp: hpt_hash_def hpt_size_def split: if_splits)
  then show ?thesis
    by (simp add: s' mset_concat_update_append)
qed

lemma insert_page_table_entry_set:
  assumes "insert_page_table_entry s as ehi elo = Done (ok, s')"
  shows "set (concat (hpt s')) = insert (new_entry as ehi elo) (set (concat (hpt s)))"
proof -
  have "set_mset (mset (concat (hpt s'))) =
      set_mset (add_mset (new_entry as ehi elo) (mset (concat (hpt s))))"
    by (simp only: insert_page_table_entry_mset [OF assms])
  then show ?thesis
    by simp
qed

lemma copied_frame_unassigned:
  fixes lo :: "32 word"
  assumes "lo AND m = 0"
  shows "(0 OR ((lo AND a) OR (lo AND b) OR (lo AND d) OR (lo AND e))) AND m = 0"
proof -
  have "(lo AND x) AND m = 0" for x
  proof -
    have "(lo AND x) AND m = (lo AND m) AND x"
      by (simp add: ac_simps)
    then show ?thesis
      by (simp add: assms)
  qed
  then show ?thesis
    by (simp add: bit.conj_disj_distrib2)
qed

lemma as_copy_loop_unassigned:
  "pending s old i j \<Longrightarrow> unassigned s old \<Longrightarrow> as_copy_loop n c s old newas i j \<noteq> Some (Done r)"
proof (induction n arbitrary: s i j)
  case 0
  show ?case by simp
next
  case (Suc n)
  note pend = Suc.prems(1) and un = Suc.prems(2)
  have i: "i < hpt_size s"
    using pend by (rule pending_bucket)
  show ?case
  proof (cases "j < length (hpt s ! i)")
    case False
    then show ?thesis
      using i Suc.IH [OF pending_next_bucket [OF pend False] un] by simp
  next
    case j: True
    show ?thesis
    proof (cases "pid (hpt s ! i ! j) = old")
      case False
      then show ?thesis
        using i j Suc.IH [OF pending_next_entry [OF pend False] un] by (simp add: Let_def)
    next
      case True
      define ptr where "ptr = hpt s ! i ! j"
      have "hpt s ! i \<in> set (hpt s)" and "ptr \<in> set (hpt s ! i)"
        using i j unfolding ptr_def hpt_size_def by simp_all
      then have "ptr \<in> set (concat (hpt s))"
        by auto
      with True un have frame: "entry_lo ptr AND PAGE_FRAME = 0"
        unfolding unassigned_def ptr_def by blast
      define lo' where "lo' = 0 OR
         ((entry_lo ptr AND HPTABLE_STATEBITS c) OR
          (entry_lo ptr AND push_bit (HPTABLE_DIRTY c) 1) OR
          (entry_lo ptr AND push_bit (HPTABLE_VALID c) 1) OR
          (entry_lo ptr AND push_bit (HPTABLE_GLOBAL c) 1))"
      have lo': "lo' AND PAGE_FRAME = 0"
        unfolding lo'_def using frame by (rule copied_frame_unassigned)
      have step: "as_copy_loop (Suc n) c s old newas i j =
          (case insert_page_table_entry s newas (entry_hi ptr) lo' of
             Crash \<Rightarrow> Some Crash
           | Done (ok, s3) \<Rightarrow>
               if \<not> ok then Some (Done (ENOMEM, as_destroy s3 newas))
               else as_copy_loop n c s3 old newas i j)"
        using i j True frame by (simp add: Let_def ptr_def [symmetric] lo'_def)
      show ?thesis
      proof (cases "insert_page_table_entry s newas (entry_hi ptr) lo'")
        case Crash
        show ?thesis
          unfolding step Crash by simp
      next
        case (Done r3)
        obtain ok s3 where r3: "r3 = (ok, s3)"
          by (cases r3)
        have ins: "insert_page_table_entry s newas (entry_hi ptr) lo' = Done (ok, s3)"
          using Done r3 by simp
        have ok: "ok"
          using ins by (auto simp: insert_page_table_entry_eq split: option.splits if_splits)
        have "unassigned s3 old"
          using un lo' unfolding unassigned_def insert_page_table_entry_set [OF ins]
          by (simp add: new_entry_def)
        with pending_insert [OF pend ins refl]
        have "as_copy_loop n c s3 old newas i j \<noteq> Some (Done r)"
          by (rule Suc.IH)
        then show ?thesis
          unfolding step ins using ok by simp
      qed
    qed
  qed
qed

lemma as_copy_loop_spins:
  "pending s old i j \<Longrightarrow> unassigned s old \<Longrightarrow> \<forall>k. kmalloc_ans s k \<noteq> 0
     \<Longrightarrow> as_copy_loop n c s old newas i j = None"
proof (induction n arbitrary: s i j)
  case 0
  show ?case by simp
next
  case (Suc n)
  note pend = Suc.prems(1) and un = Suc.prems(2) and heap = Suc.prems(3)
  have i: "i < hpt_size s"
    using pend by (rule pending_bucket)
  show ?case
  proof (cases "j < length (hpt s ! i)")
    case False
    then show ?thesis
      using i Suc.IH [OF pending_next_bucket [OF pend False] un heap] by simp
  next
    case j: True
    show ?thesis
    proof (cases "pid (hpt s ! i ! j) = old")
      case False
      then show ?thesis
        using i j Suc.IH [OF pending_next_entry [OF pend False] un heap] by (simp add: Let_def)
    next
      case True
      define ptr where "ptr = hpt s ! i ! j"
      have "hpt s ! i \<in> set (hpt s)" and "ptr \<in> set (hpt s ! i)"
        using i j unfolding ptr_def hpt_size_def by simp_all
      then have "ptr \<in> set (concat (hpt s))"
        by auto
      with True un have frame: "entry_lo ptr AND PAGE_FRAME = 0"
        unfolding unassigned_def ptr_def by blast
      define lo' where "lo' = 0 OR
         ((entry_lo ptr AND HPTABLE_STATEBITS c) OR
          (entry_lo ptr AND push_bit (HPTABLE_DIRTY c) 1) OR
          (entry_lo ptr AND push_bit (HPTABLE_VALID c) 1) OR
          (entry_lo ptr AND push_bit (HPTABLE_GLOBAL c) 1))"
      have lo': "lo' AND PAGE_FRAME = 0"
        unfolding lo'_def using frame by (rule copied_frame_unassigned)
      have step: "as_copy_loop (Suc n) c s old newas i j =
          (case insert_page_table_entry s newas (entry_hi ptr) lo' of
             Crash \<Rightarrow> Some Crash
           | Done (ok, s3) \<Rightarrow>
               if \<not> ok then Some (Done (ENOMEM, as_destroy s3 newas))
               else as_copy_loop n c s3 old newas i j)"
        using i j True frame by (simp add: Let_def ptr_def [symmetric] lo'_def)
      obtain s3 where ins: "insert_page_table_entry s newas (entry_hi ptr) lo' = Done (True, s3)"
        and heap3: "kmalloc_ans s3 = kmalloc_ans s"
        using i heap by (simp add: insert_page_table_entry_eq hpt_hash_def)
      have "unassigned s3 old"
        using un lo' unfolding unassigned_def insert_page_table_entry_set [OF ins]
        by (simp add: new_entry_def)
      moreover have "\<forall>k. kmalloc_ans s3 k \<noteq> 0"
        using heap by (simp add: heap3)
      ultimately have "as_copy_loop n c s3 old newas i j = None"
        using pending_insert [OF pend ins refl] by (intro Suc.IH)
      then show ?thesis
        unfolding step ins by simp
    qed
  qed
qed

section \<open>The loop of \<^verbatim>\<open>define_memory\<close>\<close>

lemma insert_page_table_entry_ok:
  assumes "hpt s \<noteq> []" and "kmalloc_ans s (kmalloc_cnt s) \<noteq> 0"
  obtains s' where "insert_page_table_entry s as ehi elo = Done (True, s')"
    and "hpt s' \<noteq> []" and "kmalloc_ans s' = kmalloc_ans s"
    and "kmalloc_cnt s' = Suc (kmalloc_cnt s)"
  using assms by (simp add: insert_page_table_entry_eq hpt_hash_def hpt_size_def)

lemma not_owns_as_destroy: "\<not> owns (as_destroy s as) as"
  by (auto simp: owns_def as_destroy_eq)

lemma not_owns_filter:
  "\<not> owns s as \<Longrightarrow> filter_mset (\<lambda>e. pid e = as) (mset (concat (hpt s))) = {#}"
  unfolding owns_def by (simp add: filter_mset_eq_conv)

lemma region_entry_lo_bits:
  assumes "permissions AND HPTABLE_WRITE c \<noteq> 0"
    and "HPTABLE_VALID c < 32" and "HPTABLE_GLOBAL c < 32" and "HPTABLE_DIRTY c < 32"
  shows "region_entry_lo c permissions AND HPTABLE_WRITE c \<noteq> 0"
    and "bit (region_entry_lo c permissions) (HPTABLE_DIRTY c)"
    and "bit (region_entry_lo c permissions) (HPTABLE_VALID c)"
    and "bit (region_entry_lo c permissions) (HPTABLE_GLOBAL c)"
    and "region_entry_lo c permissions AND HPTABLE_SWRITE c = HPTABLE_SWRITE c"
proof -
  have lo: "region_entry_lo c permissions =
      push_bit (HPTABLE_VALID c) 1 OR push_bit (HPTABLE_GLOBAL c) 1
        OR push_bit (HPTABLE_DIRTY c) 1 OR permissions OR HPTABLE_SWRITE c"
    using assms(1) by (simp add: region_entry_lo_def or.assoc del: push_bit_of_1)
  show "bit (region_entry_lo c permissions) (HPTABLE_DIRTY c)"
    and "bit (region_entry_lo c permissions) (HPTABLE_VALID c)"
    and "bit (region_entry_lo c permissions) (HPTABLE_GLOBAL c)"
    using assms(2-4) by (simp_all add: lo bit_simps del: push_bit_of_1)
  show "region_entry_lo c permissions AND HPTABLE_SWRITE c = HPTABLE_SWRITE c"
    by (auto simp: lo bit_eq_iff bit_and_iff bit_or_iff)
  show "region_entry_lo c permissions AND HPTABLE_WRITE c \<noteq> 0"
  proof
    assume z: "region_entry_lo c permissions AND HPTABLE_WRITE c = 0"
    have "permissions AND HPTABLE_WRITE c = 0"
    proof (rule bit_eqI)
      fix n
      from z have "\<not> bit (region_entry_lo c permissions AND HPTABLE_WRITE c) n"
        by simp
      then show "bit (permissions AND HPTABLE_WRITE c) n = bit (0 :: 32 word) n"
        by (auto simp: lo bit_and_iff bit_or_iff)
    qed
    with assms(1) show False
      by simp
  qed
qed

lemma page_keys_step:
  assumes "start < top'"
  shows "page_keys c as start top' =
     (as, push_bit (FLAG_OFFSET c) start AND PAGE_FRAME) # page_keys c as (start + 1) top'"
proof -
  have "unat start < unat top'"
    using assms by (simp add: word_less_nat_alt)
  then show ?thesis
    by (simp add: page_keys_def upt_conv_Cons word_less_Suc_unat [OF assms])
qed

lemma page_keys_done: "\<not> start < top' \<Longrightarrow> page_keys c as start top' = []"
  by (simp add: page_keys_def word_less_nat_alt)

lemma insert_page_table_entry_keys:
  assumes "insert_page_table_entry s as ehi elo = Done (ok, s')"
  shows "mset (table_keys s') = add_mset (as, ehi AND PAGE_FRAME) (mset (table_keys s))"
proof -
  have "mset (table_keys s') = image_mset entry_key (mset (concat (hpt s')))"
    by (simp add: table_keys_def)
  also have "\<dots> = add_mset (entry_key (new_entry as ehi elo))
      (image_mset entry_key (mset (concat (hpt s))))"
    by (simp add: insert_page_table_entry_mset [OF assms])
  finally show ?thesis
    by (simp add: table_keys_def entry_key_def new_entry_def)
qed

lemma define_memory_loop_keys:
  "define_memory_loop c s as permissions start top' = Done (result, s') \<Longrightarrow>
     mset (table_keys s') = mset (table_keys s) + mset (page_keys c as start top')"
proof (induction c s as permissions start top' rule: define_memory_loop.induct)
  case (1 c s as permissions start top')
  show ?case
  proof (cases "start < top'")
    case False
    with "1.prems" show ?thesis
      by (simp add: define_memory_loop.simps [of c s] page_keys_done)
  next
    case True
    from "1.prems" True obtain ok s1 where
      ins: "insert_page_table_entry s as (push_bit (FLAG_OFFSET c) start)
              (region_entry_lo c permissions) = Done (ok, s1)"
      by (auto simp: define_memory_loop.simps [of c s] split: outcome.splits)
    have ok: "ok"
      using ins by (auto simp: insert_page_table_entry_eq split: option.splits if_splits)
    from "1.prems" True have rest:
      "define_memory_loop c s1 as permissions (start + 1) top' = Done (result, s')"
      by (simp add: define_memory_loop.simps [of c s] ins ok)
    have "mset (table_keys s') = mset (table_keys s1) + mset (page_keys c as (start + 1) top')"
      using True ins ok rest by (intro "1.IH") simp_all
    then show ?thesis
      by (simp add: insert_page_table_entry_keys [OF ins] page_keys_step [OF True])
  qed
qed

lemma as_define_region_keys:
  assumes "as_define_region c s as vaddr memsize readable writeable executable = Done (result, s')"
  shows "mset (table_keys s') =
     mset (table_keys s) + mset (region_keys c (as, vaddr, memsize, readable, writeable, executable))"
proof (cases "vaddr + memsize > MIPS_KSEG0")
  case True
  with assms show ?thesis
    by (simp add: as_define_region_def define_memory_def)
next
  case False
  with assms obtain r where "define_memory_loop c s as
      (push_bit 1 (readable OR writeable OR executable)) (vaddr div PAGE_SIZE)
      ((vaddr + memsize + PAGE_SIZE - 1) div PAGE_SIZE) = Done (r, s')"
    unfolding as_define_region_def define_memory_def
    by (auto simp: Let_def split: outcome.splits if_splits)
  then show ?thesis
    using False by (simp add: define_memory_loop_keys)
qed

lemma define_regions_keys:
  "define_regions c s rs = Done s' \<Longrightarrow>
     mset (table_keys s') = mset (table_keys s) + mset (concat (map (region_keys c) rs))"
proof (induction rs arbitrary: s)
  case Nil
  then show ?case by simp
next
  case (Cons r rs)
  obtain as vaddr memsize readable writeable executable where
    r: "r = (as, vaddr, memsize, readable, writeable, executable)"
    by (cases r)
  from Cons.prems obtain result s1 where
    one: "as_define_region c s as vaddr memsize readable writeable executable = Done (result, s1)"
    and rest: "define_regions c s1 rs = Done s'"
    by (auto simp: r split: outcome.splits)
  show ?case
    using Cons.IH [OF rest] as_define_region_keys [OF one] by (simp add: r)
qed

lemma distinct_keys_count:
  "distinct (map f xs) \<Longrightarrow> length (filter (\<lambda>x. f x = k) xs) \<le> 1"
proof (induction xs)
  case Nil
  then show ?case by simp
next
  case (Cons x xs)
  show ?case
  proof (cases "f x = k")
    case True
    from Cons.prems have "f x \<notin> f ` set xs"
      by simp
    with True have "f y \<noteq> k" if "y \<in> set xs" for y
      using that by blast
    then have "filter (\<lambda>x. f x = k) xs = []"
      by (simp add: filter_empty_conv)
    with True show ?thesis by simp
  next
    case False
    with Cons show ?thesis by simp
  qed
qed

lemma mod_two_buckets: "n mod Suc (Suc 0) = n mod 2"
  by (simp add: numeral_2_eq_2)

lemmas eval_defs =
  as_define_region_def define_memory_def MIPS_KSEG0_def PAGE_SIZE_def
  define_memory_loop.simps [of _ _ _ _ 1] define_memory_loop.simps [of _ _ _ _ 2]
  define_memory_loop.simps [of _ _ _ _ 3]
  insert_page_table_entry_eq hpt_hash_def hpt_size_def boot_kernel_def answers_def
  new_entry_def example_macros_def region_entry_lo_def PAGE_FRAME_def PAGE_BITS_def
  mod_two_buckets

section \<open>Lookup after other operations\<close>

lemma find_chain_find:
  "find_chain p v xs = List.find (\<lambda>e. pid e = p \<and> v = entry_hi e AND PAGE_FRAME) xs"
  by (induction xs) simp_all

lemma find_chain_append:
  "find_chain p v (xs @ ys) =
     (case find_chain p v xs of None \<Rightarrow> find_chain p v ys | Some e \<Rightarrow> Some e)"
  by (induction xs) simp_all

lemma find_chain_filter:
  "p \<noteq> b \<Longrightarrow> find_chain p v (filter (\<lambda>e. pid e \<noteq> b) xs) = find_chain p v xs"
  by (induction xs) auto

lemma find_chain_map:
  "p \<noteq> b \<Longrightarrow>
     find_chain p v (map (\<lambda>e. if pid e = b then e\<lparr>entry_lo := f e\<rparr> else e) xs) = find_chain p v xs"
  by (induction xs) auto

lemma hpt_hash_bound: "hpt_hash s as v = Some index \<Longrightarrow> index < length (hpt s)"
  by (auto simp: hpt_hash_def hpt_size_def split: if_splits)

lemma hpt_hash_cong: "length (hpt s') = length (hpt s) \<Longrightarrow> hpt_hash s' as v = hpt_hash s as v"
  by (simp add: hpt_hash_def hpt_size_def)

lemma find_insert_keeps:
  assumes "find s as v = Done (Some e)"
    and "insert_page_table_entry s b ehi elo = Done (ok, s')"
  shows "find s' as v = Done (Some e)"
proof -
  from assms(1) obtain i where i: "hpt_hash s as v = Some i"
    and e: "find_chain as v (hpt s ! i) = Some e"
    by (auto simp: find_def split: option.splits)
  from assms(2) obtain index where
    s': "hpt s' = (hpt s)[index := hpt s ! index @ [new_entry b ehi elo]]"
    by (auto simp: insert_page_table_entry_eq split: option.splits if_splits)
  have hash: "hpt_hash s' as v = Some i"
    using i by (simp add: hpt_hash_cong [of s' s] s')
  have "find_chain as v (hpt s' ! i) = Some e"
    using hpt_hash_bound [OF i] e by (cases "index = i") (simp_all add: s' find_chain_append)
  then show ?thesis
    by (simp add: find_def hash)
qed

lemma find_destroy_keeps:
  assumes "b \<noteq> as"
  shows "find (as_destroy s b) as v = find s as v"
proof (cases "hpt_hash s as v")
  case None
  then show ?thesis
    by (simp add: find_def hpt_hash_def hpt_size_def as_destroy_eq split: if_splits)
next
  case (Some i)
  have len: "length (hpt (as_destroy s b)) = length (hpt s)"
    by (simp add: as_destroy_eq)
  have "hpt_hash (as_destroy s b) as v = Some i"
    using Some hpt_hash_cong [OF len, of as v] by simp
  then show ?thesis
    using hpt_hash_bound [OF Some] assms
    by (simp add: find_def Some as_destroy_eq find_chain_filter)
qed

lemma find_complete_load_keeps:
  assumes "b \<noteq> as"
  shows "find (snd (as_complete_load c s b)) as v = find s as v"
proof (cases "hpt_hash s as v")
  case None
  then show ?thesis
    by (simp add: find_def hpt_hash_def hpt_size_def as_complete_load_def
        as_complete_load_buckets_eq tlb_flush_def split: if_splits)
next
  case (Some i)
  have len: "length (hpt (snd (as_complete_load c s b))) = length (hpt s)"
    by (simp add: as_complete_load_def as_complete_load_buckets_eq tlb_flush_def)
  have "hpt_hash (snd (as_complete_load c s b)) as v = Some i"
    using Some hpt_hash_cong [OF len, of as v] by simp
  then show ?thesis
    using hpt_hash_bound [OF Some] assms
    by (simp add: find_def Some as_complete_load_def as_complete_load_buckets_eq tlb_flush_def
        find_chain_map)
qed

lemma find_define_memory_loop_keeps:
  "define_memory_loop c s b permissions start top' = Done (result, s') \<Longrightarrow>
     find s as v = Done (Some e) \<Longrightarrow> find s' as v = Done (Some e)"
proof (induction c s b permissions start top' rule: define_memory_loop.induct)
  case (1 c s b permissions start top')
  show ?case
  proof (cases "start < top'")
    case False
    with "1.prems" show ?thesis
      by (simp add: define_memory_loop.simps [of c s])
  next
    case True
    from "1.prems"(1) True obtain ok s1 where
      ins: "insert_page_table_entry s b (push_bit (FLAG_OFFSET c) start)
              (region_entry_lo c permissions) = Done (ok, s1)"
      by (auto simp: define_memory_loop.simps [of c s] split: outcome.splits)
    have ok: "ok"
      using ins by (auto simp: insert_page_table_entry_eq split: option.splits if_splits)
    from "1.prems"(1) True have rest:
      "define_memory_loop c s1 b permissions (start + 1) top' = Done (result, s')"
      by (simp add: define_memory_loop.simps [of c s] ins ok)
    have "find s1 as v = Done (Some e)"
      using "1.prems"(2) ins by (rule find_insert_keeps)
    with True ins ok rest show ?thesis
      by (intro "1.IH") simp_all
  qed
qed

lemma find_define_region_keeps:
  assumes "as_define_region c s b vaddr memsize readable writeable executable = Done (result, s')"
    and "find s as v = Done (Some e)"
  shows "find s' as v = Done (Some e)"
proof (cases "vaddr + memsize > MIPS_KSEG0")
  case True
  with assms show ?thesis
    by (simp add: as_define_region_def define_memory_def)
next
  case False
  with assms(1) obtain r where "define_memory_loop c s b
      (push_bit 1 (readable OR writeable OR executable)) (vaddr div PAGE_SIZE)
      ((vaddr + memsize + PAGE_SIZE - 1) div PAGE_SIZE) = Done (r, s')"
    unfolding as_define_region_def define_memory_def
    by (auto simp: Let_def split: outcome.splits if_splits)
  then show ?thesis
    using assms(2) by (rule find_define_memory_loop_keeps)
qed

lemma find_table_step_keeps:
  assumes "table_step c s x = Done s'" and "\<not> touches x as" and "find s as v = Done (Some e)"
  shows "find s' as v = Done (Some e)"
proof (cases x)
  case (Insert b ehi elo)
  with assms(1) obtain ok where "insert_page_table_entry s b ehi elo = Done (ok, s')"
    by (auto split: outcome.splits)
  with assms(3) show ?thesis
    by (rule find_insert_keeps)
next
  case (DefineRegion b vaddr memsize readable writeable executable)
  with assms(1) obtain result where
    "as_define_region c s b vaddr memsize readable writeable executable = Done (result, s')"
    by (auto split: outcome.splits)
  then show ?thesis
    using assms(3) by (rule find_define_region_keeps)
next
  case (CompleteLoad b)
  with assms show ?thesis
    by (auto simp: find_complete_load_keeps)
next
  case (Destroy b)
  with assms show ?thesis
    by (auto simp: find_destroy_keeps)
qed

lemma find_table_steps_keeps:
  "table_steps c s xs = Done s' \<Longrightarrow> \<forall>x \<in> set xs. \<not> touches x as \<Longrightarrow>
     find s as v = Done (Some e) \<Longrightarrow> find s' as v = Done (Some e)"
proof (induction xs arbitrary: s)
  case Nil
  then show ?case by simp
next
  case (Cons x xs)
  from Cons.prems(1) obtain s1 where one: "table_step c s x = Done s1"
    and rest: "table_steps c s1 xs = Done s'"
    by (auto split: outcome.splits)
  have "find s1 as v = Done (Some e)"
    using one Cons.prems(2,3) by (intro find_table_step_keeps [of c s x s1]) simp_all
  with rest Cons.prems(2) show ?case
    by (intro Cons.IH) simp_all
qed

section \<open>Insertion\<close>

text \<open>
  C5. The claim: \<^verbatim>\<open>insert\<close> returns OutOfMemory exactly when the allocation of the entry
  fails. The code never returns \<^verbatim>\<open>false\<close>, whatever the state and the arguments, and when
  \<^verbatim>\<open>kmalloc\<close> answers \<^verbatim>\<open>NULL\<close> (here on a table of one empty bucket) the call ends in the
  trap of the null dereference instead. When the allocation succeeds the entry is linked
  at the tail of its bucket: that half is \<open>insert_page_table_entry_eq\<close>.
\<close>

theorem insert_page_table_entry_never_false:
  "insert_page_table_entry s as ehi elo \<noteq> Done (False, s')
   \<and> insert_page_table_entry (s\<lparr>hpt := [[]], kmalloc_ans := \<lambda>n. 0\<rparr>) as ehi elo = Crash"
  by (simp add: insert_page_table_entry_eq hpt_hash_def hpt_size_def split: option.split)

section \<open>Lookup\<close>

text \<open>
  C8. The claim: right after \<^verbatim>\<open>insert(A, v, s)\<close> a lookup of \<open>(A, v)\<close> returns an entry with
  state \<open>s\<close>. The new entry is linked at the tail and the lookup returns the first match, so
  with an entry of the same key already in the chain the lookup returns the older one (the
  counterexample). As amended, for a page-aligned tag \<open>v\<close> that has no entry of \<open>as\<close> before
  the insertion: the insertion reports success; the lookup then returns the entry with
  owner \<open>as\<close>, tag \<open>v\<close> and the state given, and still does after any run of insertions,
  region definitions, and loads completed or address spaces destroyed for other owners;
  both functions hash to the same bucket, the insertion only appends to that chain, and
  the lookup returns the first match of the chain.
\<close>

theorem find_after_insert:
  assumes "v AND PAGE_FRAME = v"
    and "find s as v = Done None"
    and "insert_page_table_entry s as v elo = Done (ok, s')"
    and "table_steps c s' xs = Done s''"
    and "\<forall>x \<in> set xs. \<not> touches x as"
  shows "ok
     \<and> find s' as v = Done (Some \<lparr>pid = as, entry_hi = v, entry_lo = elo\<rparr>)
     \<and> find s'' as v = Done (Some \<lparr>pid = as, entry_hi = v, entry_lo = elo\<rparr>)
     \<and> (\<exists>index. hpt_hash s as v = Some index \<and> hpt_hash s' as v = Some index
          \<and> hpt s' = (hpt s)[index := hpt s ! index @ [\<lparr>pid = as, entry_hi = v, entry_lo = elo\<rparr>]]
          \<and> find s' as v = Done (List.find (\<lambda>e. pid e = as \<and> v = entry_hi e AND PAGE_FRAME)
               (hpt s' ! index)))"
proof -
  from assms(3) obtain index where ok: "ok" and hash: "hpt_hash s as v = Some index"
    and s': "hpt s' = (hpt s)[index := hpt s ! index @ [new_entry as v elo]]"
    by (auto simp: insert_page_table_entry_eq assms(1) split: option.splits if_splits)
  have new: "new_entry as v elo = \<lparr>pid = as, entry_hi = v, entry_lo = elo\<rparr>"
    by (simp add: new_entry_def assms(1))
  have hash': "hpt_hash s' as v = Some index"
    using hash by (simp add: hpt_hash_cong [of s' s] s')
  have none: "find_chain as v (hpt s ! index) = None"
    using assms(2) by (simp add: find_def hash)
  have found: "find s' as v = Done (Some \<lparr>pid = as, entry_hi = v, entry_lo = elo\<rparr>)"
    using hpt_hash_bound [OF hash]
    by (simp add: find_def hash' s' find_chain_append none new assms(1))
  have later: "find s'' as v = Done (Some \<lparr>pid = as, entry_hi = v, entry_lo = elo\<rparr>)"
    using assms(4,5) found by (rule find_table_steps_keeps)
  have first: "find s' as v = Done (List.find (\<lambda>e. pid e = as \<and> v = entry_hi e AND PAGE_FRAME)
      (hpt s' ! index))"
    by (simp add: find_def hash' find_chain_find)
  show ?thesis
    using ok found later hash hash' s' first unfolding new by blast
qed

theorem find_after_insert_witness:
  "(0x1000 :: 32 word) AND PAGE_FRAME = 0x1000
   \<and> find (boot_kernel [[], [\<lparr>pid = 0x80040000, entry_hi = 0x3000, entry_lo = 0x70D\<rparr>]]
           (answers [0x80050000, 0x80050010]) (answers [])) 0x80030000 0x1000 = Done None
   \<and> insert_page_table_entry
         (boot_kernel [[], [\<lparr>pid = 0x80040000, entry_hi = 0x3000, entry_lo = 0x70D\<rparr>]]
           (answers [0x80050000, 0x80050010]) (answers [])) 0x80030000 0x1000 0x70D
       = Done (True,
           (boot_kernel [[], [\<lparr>pid = 0x80040000, entry_hi = 0x3000, entry_lo = 0x70D\<rparr>,
                             \<lparr>pid = 0x80030000, entry_hi = 0x1000, entry_lo = 0x70D\<rparr>]]
             (answers [0x80050000, 0x80050010]) (answers []))\<lparr>kmalloc_cnt := 1\<rparr>)
   \<and> find ((boot_kernel [[], [\<lparr>pid = 0x80030000, entry_hi = 0x1000, entry_lo = 0x70D\<rparr>,
                             \<lparr>pid = 0x80030000, entry_hi = 0x1000, entry_lo = 0x30B\<rparr>]]
             (answers [0x80050000, 0x80050010]) (answers []))
           \<lparr>kmalloc_cnt := 2, freed_kpages := [0], kfreed := [0x80040000], tlb_flushes := 2\<rparr>)
        0x80030000 0x1000
       = Done (Some \<lparr>pid = 0x80030000, entry_hi = 0x1000, entry_lo = 0x70D\<rparr>)"
proof -
  let ?k = "boot_kernel [[], [\<lparr>pid = 0x80040000, entry_hi = 0x3000, entry_lo = 0x70D\<rparr>]]
           (answers [0x80050000, 0x80050010]) (answers [])"
  let ?k1 = "(boot_kernel [[], [\<lparr>pid = 0x80040000, entry_hi = 0x3000, entry_lo = 0x70D\<rparr>,
                             \<lparr>pid = 0x80030000, entry_hi = 0x1000, entry_lo = 0x70D\<rparr>]]
             (answers [0x80050000, 0x80050010]) (answers []))\<lparr>kmalloc_cnt := 1\<rparr>"
  let ?k2 = "(boot_kernel [[], [\<lparr>pid = 0x80030000, entry_hi = 0x1000, entry_lo = 0x70D\<rparr>,
                             \<lparr>pid = 0x80030000, entry_hi = 0x1000, entry_lo = 0x30B\<rparr>]]
             (answers [0x80050000, 0x80050010]) (answers []))
           \<lparr>kmalloc_cnt := 2, freed_kpages := [0], kfreed := [0x80040000], tlb_flushes := 2\<rparr>"
  let ?xs = "[Insert 0x80030000 0x1000 0x30B, CompleteLoad 0x80040000, Destroy 0x80040000]"
  have h1: "(0x1000 :: 32 word) AND PAGE_FRAME = 0x1000"
    by (simp add: PAGE_FRAME_def)
  have h2: "find ?k 0x80030000 0x1000 = Done None"
    by (simp add: find_def hpt_hash_def hpt_size_def boot_kernel_def PAGE_FRAME_def PAGE_BITS_def
        mod_two_buckets)
  have h3: "insert_page_table_entry ?k 0x80030000 0x1000 0x70D = Done (True, ?k1)"
    by (simp add: insert_page_table_entry_eq hpt_hash_def hpt_size_def boot_kernel_def answers_def
        new_entry_def PAGE_FRAME_def PAGE_BITS_def mod_two_buckets)
  have h4: "table_steps example_macros ?k1 ?xs = Done ?k2"
    by (simp add: insert_page_table_entry_eq hpt_hash_def hpt_size_def boot_kernel_def answers_def
        new_entry_def PAGE_FRAME_def PAGE_BITS_def mod_two_buckets as_complete_load_def
        as_complete_load_buckets_eq as_destroy_eq tlb_flush_def example_macros_def)
  have h5: "\<forall>x \<in> set ?xs. \<not> touches x 0x80030000"
    by simp
  show ?thesis
    using h1 h2 h3 find_after_insert [OF h1 h2 h3 h4 h5] by simp
qed

theorem find_after_insert_counterexample:
  "(case insert_page_table_entry
           (boot_kernel [[], [\<lparr>pid = 0x80030000, entry_hi = 0x1000, entry_lo = 0x70D\<rparr>]]
              (answers [0x80050000]) (answers []))
           0x80030000 0x1000 0x30B of
      Done (ok, s') \<Rightarrow>
        ok \<and> find s' 0x80030000 0x1000 =
               Done (Some \<lparr>pid = 0x80030000, entry_hi = 0x1000, entry_lo = 0x70D\<rparr>)
           \<and> find s' 0x80030000 0x1000 \<noteq>
               Done (Some \<lparr>pid = 0x80030000, entry_hi = 0x1000, entry_lo = 0x30B\<rparr>)
    | Crash \<Rightarrow> False)"
  by (simp add: insert_page_table_entry_eq hpt_hash_def hpt_size_def boot_kernel_def answers_def
      new_entry_def PAGE_FRAME_def PAGE_BITS_def mod_two_buckets find_def)

section \<open>Region definition\<close>

text \<open>
  C3. The claim: a range that passes \<^verbatim>\<open>MIPS_KSEG0\<close> makes \<^verbatim>\<open>define_region\<close> return
  InvalidRange, an error other than OutOfMemory, and leaves the table as it was. The code:
  when the 32-bit sum \<open>addr + memsize\<close> is above \<^verbatim>\<open>MIPS_KSEG0\<close>, \<^verbatim>\<open>define_memory\<close> returns
  \<^verbatim>\<open>EFAULT\<close> and changes nothing, but \<^verbatim>\<open>as_define_region\<close> turns every nonzero result into
  \<^verbatim>\<open>ENOMEM\<close>.
\<close>

theorem define_region_range_error:
  assumes "addr + memsize > MIPS_KSEG0"
  shows "define_memory c s as addr memsize permissions = Done (EFAULT, s)
     \<and> as_define_region c s as addr memsize readable writeable executable = Done (ENOMEM, s)"
  using assms by (simp add: define_memory_def as_define_region_def)

theorem define_region_range_error_witness:
  "(0x80000000 :: 32 word) + 0x1000 > MIPS_KSEG0
   \<and> define_memory example_macros (boot_kernel [[]] (answers []) (answers [])) 0x80030000
        0x80000000 0x1000 12 = Done (EFAULT, boot_kernel [[]] (answers []) (answers []))
   \<and> as_define_region example_macros (boot_kernel [[]] (answers []) (answers [])) 0x80030000
        0x80000000 0x1000 4 2 0 = Done (ENOMEM, boot_kernel [[]] (answers []) (answers []))"
proof -
  have h: "(0x80000000 :: 32 word) + 0x1000 > MIPS_KSEG0"
    by (simp add: MIPS_KSEG0_def)
  show ?thesis
    using h define_region_range_error [OF h] by simp
qed

text \<open>
  The sum is computed in 32 bits: a range from \<^verbatim>\<open>0x1FFF\<close> of size \<^verbatim>\<open>0xFFFFFFFF\<close> ends far
  above \<^verbatim>\<open>MIPS_KSEG0\<close>, the sum wraps to \<^verbatim>\<open>0x1FFE\<close>, the call returns 0 and inserts an
  entry.
\<close>

lemma define_memory_wraps:
  "as_define_region example_macros
      (boot_kernel [[]] (answers [0x80040000]) (answers [])) 0x80030000 0x1FFF 0xFFFFFFFF 4 2 0
   = Done (OK, (boot_kernel [[\<lparr>pid = 0x80030000, entry_hi = 0x1000, entry_lo = 0x70D\<rparr>]]
                 (answers [0x80040000]) (answers []))\<lparr>kmalloc_cnt := 1\<rparr>)"
  by (simp add: as_define_region_def define_memory_def MIPS_KSEG0_def PAGE_SIZE_def
      define_memory_loop.simps [of _ _ _ _ 1] define_memory_loop.simps [of _ _ _ _ 2]
      insert_page_table_entry_eq hpt_hash_def hpt_size_def boot_kernel_def answers_def
      new_entry_def example_macros_def region_entry_lo_def PAGE_FRAME_def PAGE_BITS_def)

text \<open>
  C6. \<^verbatim>\<open>as_define_region\<close> of the range from \<^verbatim>\<open>0x1000\<close> of size 8192, asking for write
  access, on a table with no entry of \<open>as\<close>: when both entries can be allocated it returns 0,
  the entries of \<open>as\<close> are then exactly two, with tags \<^verbatim>\<open>0x1000\<close> and \<^verbatim>\<open>0x2000\<close>, and their
  \<^verbatim>\<open>entry_lo\<close> has the write permission, the dirty, valid and global bits and the load-time
  write bits set; after \<^verbatim>\<open>as_destroy\<close> no entry of \<open>as\<close> is left. The macros are
  parameters: the page number is shifted by \<^verbatim>\<open>FLAG_OFFSET\<close> = 12, the three bit numbers are
  below 32, and the request has a bit of \<^verbatim>\<open>HPTABLE_WRITE\<close>.
\<close>

theorem define_region_round_trip:
  assumes "FLAG_OFFSET c = 12"
    and "HPTABLE_VALID c < 32" and "HPTABLE_GLOBAL c < 32" and "HPTABLE_DIRTY c < 32"
    and "push_bit 1 (readable OR writeable OR executable) AND HPTABLE_WRITE c \<noteq> 0"
    and "hpt s \<noteq> []" and "\<not> owns s as"
    and "kmalloc_ans s (kmalloc_cnt s) \<noteq> 0" and "kmalloc_ans s (Suc (kmalloc_cnt s)) \<noteq> 0"
  shows "\<exists>s' lo. as_define_region c s as 0x1000 8192 readable writeable executable = Done (OK, s')
     \<and> filter_mset (\<lambda>e. pid e = as) (mset (concat (hpt s'))) =
         {#\<lparr>pid = as, entry_hi = 0x1000, entry_lo = lo\<rparr>,
           \<lparr>pid = as, entry_hi = 0x2000, entry_lo = lo\<rparr>#}
     \<and> lo = region_entry_lo c (push_bit 1 (readable OR writeable OR executable))
     \<and> lo AND HPTABLE_WRITE c \<noteq> 0 \<and> bit lo (HPTABLE_DIRTY c)
     \<and> bit lo (HPTABLE_VALID c) \<and> bit lo (HPTABLE_GLOBAL c)
     \<and> lo AND HPTABLE_SWRITE c = HPTABLE_SWRITE c
     \<and> \<not> owns (as_destroy s' as) as"
proof -
  define p where "p = push_bit 1 (readable OR writeable OR executable)"
  define lo where "lo = region_entry_lo c p"
  obtain s1 where i1: "insert_page_table_entry s as 0x1000 lo = Done (True, s1)"
    and s1: "hpt s1 \<noteq> []" "kmalloc_ans s1 = kmalloc_ans s" "kmalloc_cnt s1 = Suc (kmalloc_cnt s)"
    using assms(6,8) by (rule insert_page_table_entry_ok)
  have "kmalloc_ans s1 (kmalloc_cnt s1) \<noteq> 0"
    using assms(9) by (simp add: s1)
  with s1(1) obtain s2 where i2: "insert_page_table_entry s1 as 0x2000 lo = Done (True, s2)"
    by (rule insert_page_table_entry_ok)
  have loop: "define_memory_loop c s as p 1 3 = Done (OK, s2)"
    by (simp add: define_memory_loop.simps [of _ _ _ _ 1] define_memory_loop.simps [of _ _ _ _ 2]
        define_memory_loop.simps [of _ _ _ _ 3] assms(1) lo_def [symmetric] i1 i2)
  have run: "as_define_region c s as 0x1000 8192 readable writeable executable = Done (OK, s2)"
    unfolding as_define_region_def p_def [symmetric]
    by (simp add: define_memory_def MIPS_KSEG0_def PAGE_SIZE_def loop)
  have "mset (concat (hpt s2)) =
      add_mset (new_entry as 0x2000 lo) (add_mset (new_entry as 0x1000 lo) (mset (concat (hpt s))))"
    by (simp add: insert_page_table_entry_mset [OF i2] insert_page_table_entry_mset [OF i1])
  then have entries: "filter_mset (\<lambda>e. pid e = as) (mset (concat (hpt s2))) =
      {#\<lparr>pid = as, entry_hi = 0x1000, entry_lo = lo\<rparr>,
        \<lparr>pid = as, entry_hi = 0x2000, entry_lo = lo\<rparr>#}"
    by (simp add: not_owns_filter [OF assms(7)] new_entry_def PAGE_FRAME_def)
  have bits: "lo AND HPTABLE_WRITE c \<noteq> 0" "bit lo (HPTABLE_DIRTY c)"
    "bit lo (HPTABLE_VALID c)" "bit lo (HPTABLE_GLOBAL c)"
    "lo AND HPTABLE_SWRITE c = HPTABLE_SWRITE c"
    unfolding lo_def using assms(5,2,3,4) unfolding p_def [symmetric]
    by (rule region_entry_lo_bits)+
  show ?thesis
    using run entries bits not_owns_as_destroy [of s2 as] lo_def p_def by blast
qed

theorem define_region_round_trip_witness:
  "FLAG_OFFSET example_macros = 12
   \<and> HPTABLE_VALID example_macros < 32 \<and> HPTABLE_GLOBAL example_macros < 32
   \<and> HPTABLE_DIRTY example_macros < 32
   \<and> push_bit 1 (4 OR 2 OR 0) AND HPTABLE_WRITE example_macros \<noteq> 0
   \<and> hpt (boot_kernel [[], []] (answers [0x80040000, 0x80040010]) (answers [])) \<noteq> []
   \<and> \<not> owns (boot_kernel [[], []] (answers [0x80040000, 0x80040010]) (answers [])) 0x80030000
   \<and> (\<exists>s' lo. as_define_region example_macros
          (boot_kernel [[], []] (answers [0x80040000, 0x80040010]) (answers []))
          0x80030000 0x1000 8192 4 2 0 = Done (OK, s')
        \<and> filter_mset (\<lambda>e. pid e = 0x80030000) (mset (concat (hpt s'))) =
            {#\<lparr>pid = 0x80030000, entry_hi = 0x1000, entry_lo = lo\<rparr>,
              \<lparr>pid = 0x80030000, entry_hi = 0x2000, entry_lo = lo\<rparr>#}
        \<and> lo = region_entry_lo example_macros (push_bit 1 (4 OR 2 OR 0))
        \<and> lo AND HPTABLE_WRITE example_macros \<noteq> 0 \<and> bit lo (HPTABLE_DIRTY example_macros)
        \<and> bit lo (HPTABLE_VALID example_macros) \<and> bit lo (HPTABLE_GLOBAL example_macros)
        \<and> lo AND HPTABLE_SWRITE example_macros = HPTABLE_SWRITE example_macros
        \<and> \<not> owns (as_destroy s' 0x80030000) 0x80030000)"
proof -
  let ?k = "boot_kernel [[], []] (answers [0x80040000, 0x80040010]) (answers [])"
  have h1: "FLAG_OFFSET example_macros = 12"
    and h2: "HPTABLE_VALID example_macros < 32"
    and h3: "HPTABLE_GLOBAL example_macros < 32"
    and h4: "HPTABLE_DIRTY example_macros < 32"
    and h5: "push_bit 1 (4 OR 2 OR 0) AND HPTABLE_WRITE example_macros \<noteq> 0"
    by (simp_all add: example_macros_def)
  have h6: "hpt ?k \<noteq> []" and h7: "\<not> owns ?k 0x80030000"
    and h8: "kmalloc_ans ?k (kmalloc_cnt ?k) \<noteq> 0"
    and h9: "kmalloc_ans ?k (Suc (kmalloc_cnt ?k)) \<noteq> 0"
    by (simp_all add: boot_kernel_def owns_def answers_def)
  show ?thesis
    using h1 h2 h3 h4 h5 h6 h7 define_region_round_trip [OF h1 h2 h3 h4 h5 h6 h7 h8 h9]
    by blast
qed

text \<open>
  C7. The claim: after any sequence of region definitions, overlapping or repeated ranges
  included, at most one entry has a given owner and tag. Nothing in the code looks for an
  entry that is already there, so defining a page twice gives two entries with its key
  (the counterexample). As amended: when the keys already in the table and the keys of the
  pages of all the regions of the sequence are pairwise distinct, at most one entry has
  owner \<open>as\<close> and tag \<open>v\<close> after the sequence.
\<close>

theorem define_regions_unique:
  assumes "define_regions c s rs = Done s'"
    and "distinct (table_keys s @ concat (map (region_keys c) rs))"
  shows "length (filter (\<lambda>e. pid e = as \<and> entry_hi e = v) (concat (hpt s'))) \<le> 1"
proof -
  have "mset (table_keys s') = mset (table_keys s @ concat (map (region_keys c) rs))"
    using define_regions_keys [OF assms(1)] by simp
  then have "distinct (table_keys s') = distinct (table_keys s @ concat (map (region_keys c) rs))"
    by (rule mset_eq_imp_distinct_iff)
  then have "distinct (table_keys s')"
    using assms(2) by simp
  then have "length (filter (\<lambda>e. entry_key e = (as, v)) (concat (hpt s'))) \<le> 1"
    unfolding table_keys_def by (rule distinct_keys_count)
  then show ?thesis
    by (simp add: entry_key_def)
qed

theorem define_regions_unique_witness:
  "define_regions example_macros
       (boot_kernel [[], []] (answers [0x80040000, 0x80040010]) (answers []))
       [(0x80030000, 0x1000, 0x1000, 4, 2, 0), (0x80030000, 0x2000, 0x1000, 4, 0, 1)]
     = Done ((boot_kernel
               [[\<lparr>pid = 0x80030000, entry_hi = 0x2000, entry_lo = 0x30B\<rparr>],
                [\<lparr>pid = 0x80030000, entry_hi = 0x1000, entry_lo = 0x70D\<rparr>]]
               (answers [0x80040000, 0x80040010]) (answers []))\<lparr>kmalloc_cnt := 2\<rparr>)
   \<and> distinct (table_keys (boot_kernel [[], []] (answers [0x80040000, 0x80040010]) (answers []))
        @ concat (map (region_keys example_macros)
            [(0x80030000, 0x1000, 0x1000, 4, 2, 0), (0x80030000, 0x2000, 0x1000, 4, 0, 1)]))
   \<and> (\<forall>as v. length (filter (\<lambda>e. pid e = as \<and> entry_hi e = v)
         (concat (hpt ((boot_kernel
               [[\<lparr>pid = 0x80030000, entry_hi = 0x2000, entry_lo = 0x30B\<rparr>],
                [\<lparr>pid = 0x80030000, entry_hi = 0x1000, entry_lo = 0x70D\<rparr>]]
               (answers [0x80040000, 0x80040010]) (answers []))\<lparr>kmalloc_cnt := 2\<rparr>)))) \<le> 1)"
proof -
  have run: "define_regions example_macros
       (boot_kernel [[], []] (answers [0x80040000, 0x80040010]) (answers []))
       [(0x80030000, 0x1000, 0x1000, 4, 2, 0), (0x80030000, 0x2000, 0x1000, 4, 0, 1)]
     = Done ((boot_kernel
               [[\<lparr>pid = 0x80030000, entry_hi = 0x2000, entry_lo = 0x30B\<rparr>],
                [\<lparr>pid = 0x80030000, entry_hi = 0x1000, entry_lo = 0x70D\<rparr>]]
               (answers [0x80040000, 0x80040010]) (answers []))\<lparr>kmalloc_cnt := 2\<rparr>)"
    by (simp add: eval_defs)
  have fresh: "distinct (table_keys (boot_kernel [[], []] (answers [0x80040000, 0x80040010]) (answers []))
        @ concat (map (region_keys example_macros)
            [(0x80030000, 0x1000, 0x1000, 4, 2, 0), (0x80030000, 0x2000, 0x1000, 4, 0, 1)]))"
    by (simp add: table_keys_def boot_kernel_def page_keys_step page_keys_done MIPS_KSEG0_def
        PAGE_SIZE_def example_macros_def PAGE_FRAME_def)
  show ?thesis
    using run fresh define_regions_unique [OF run fresh] by blast
qed

theorem define_regions_unique_counterexample:
  "(case define_regions example_macros
           (boot_kernel [[], []] (answers [0x80040000, 0x80040010]) (answers []))
           [(0x80030000, 0x1000, 0x1000, 4, 2, 0), (0x80030000, 0x1000, 0x1000, 4, 2, 0)] of
      Done s' \<Rightarrow>
        \<not> length (filter (\<lambda>e. pid e = 0x80030000 \<and> entry_hi e = 0x1000) (concat (hpt s'))) \<le> 1
    | Crash \<Rightarrow> False)"
  by (simp add: eval_defs)

section \<open>Completing the load\<close>

text \<open>
  C9. \<^verbatim>\<open>as_complete_load\<close> returns 0; in the table it leaves, every entry owned by \<open>as\<close>
  has the bits of \<^verbatim>\<open>HPTABLE_SWRITE\<close> cleared in \<^verbatim>\<open>entry_lo\<close> and is otherwise as it was, and
  every other entry is as it was, at the same place of the same chain. A second call leaves
  the table of the first.
\<close>

theorem as_complete_load_clears_swrite:
  "fst (as_complete_load c s as) = OK
   \<and> hpt (snd (as_complete_load c s as)) =
       map (map (\<lambda>e. if pid e = as
                      then e\<lparr>entry_lo := entry_lo e AND NOT (HPTABLE_SWRITE c)\<rparr> else e)) (hpt s)
   \<and> hpt (snd (as_complete_load c (snd (as_complete_load c s as)) as)) =
       hpt (snd (as_complete_load c s as))"
  by (simp add: as_complete_load_def as_complete_load_buckets_eq tlb_flush_def comp_def
      cong: if_cong)

section \<open>Destruction\<close>

text \<open>
  C10. \<^verbatim>\<open>as_destroy\<close> calls \<^verbatim>\<open>free_kpages\<close> once for each entry owned by \<open>as\<close>, in table
  order, with the frame field of the entry: the calls it adds are the frame fields of the
  entries of \<open>as\<close>. An entry whose frame was never assigned has frame field 0, so each such
  entry adds one call \<^verbatim>\<open>free_kpages(0)\<close>.
\<close>

theorem as_destroy_frees_every_entry:
  "freed_kpages (as_destroy s as) =
     freed_kpages s @
       map (\<lambda>e. entry_lo e AND PAGE_FRAME) (filter (\<lambda>e. pid e = as) (concat (hpt s)))
   \<and> count_list (freed_kpages (as_destroy s as)) 0 =
       count_list (freed_kpages s) 0 +
       length (filter (\<lambda>e. pid e = as \<and> entry_lo e AND PAGE_FRAME = 0) (concat (hpt s)))"
  by (simp add: as_destroy_eq count_list_append count_list_map_filter conj_commute)

section \<open>Duplication\<close>

text \<open>
  When \<open>old\<close> owns no entry the loops of \<^verbatim>\<open>as_copy\<close> run through the table and the call
  returns 0 with the new handle: here after three iterations, on a table of one bucket
  with one entry of another address space.
\<close>

lemma as_copy_without_entries:
  "as_copy 3 example_macros
      (boot_kernel [[\<lparr>pid = 0x80030000, entry_hi = 0x1000, entry_lo = 0x80020706\<rparr>]]
         (answers [0x80040000]) (answers [])) 0x80060000
   = Some (Done (OK, Some 0x80040000,
       (boot_kernel [[\<lparr>pid = 0x80030000, entry_hi = 0x1000, entry_lo = 0x80020706\<rparr>]]
         (answers [0x80040000]) (answers []))\<lparr>kmalloc_cnt := 1, tlb_flushes := 1\<rparr>))"
  by (simp add: as_copy_def as_create_def kmalloc_def tlb_flush_def boot_kernel_def answers_def
      hpt_size_def Let_def numeral_3_eq_3)

text \<open>
  C1. The claim: \<^verbatim>\<open>as_copy\<close> of an address space yields a new one with a copy of every
  entry. The code: when \<open>old\<close> owns an entry, \<^verbatim>\<open>as_copy\<close> never returns 0, whatever the fuel
  and the allocators; the loop stays at the first entry of \<open>old\<close> it meets.
\<close>

theorem as_copy_never_succeeds:
  assumes "owns s old"
  shows "as_copy n c s old \<noteq> Some (Done (OK, ret, s'))"
proof -
  obtain newas s0 where cr: "as_create s = (newas, s0)"
    by (cases "as_create s")
  then have "hpt s0 = hpt s"
    using as_create_hpt [of s] by simp
  then have "owns s0 old"
    using assms by (simp add: owns_def)
  then have "as_copy_loop n c s0 old newas 0 0 \<noteq> Some (Done (OK, s'))"
    by (intro as_copy_loop_stuck owns_pending)
  then show ?thesis
    by (auto simp: as_copy_def cr split: option.splits outcome.splits if_splits)
qed

theorem as_copy_never_succeeds_witness:
  "owns (boot_kernel [[], [\<lparr>pid = 0x80030000, entry_hi = 0x1000, entry_lo = 0x80020706\<rparr>]]
           (answers [0x80040000, 0x80040010]) (answers [0x80050000])) 0x80030000
   \<and> (\<forall>n ret s'. as_copy n example_macros
          (boot_kernel [[], [\<lparr>pid = 0x80030000, entry_hi = 0x1000, entry_lo = 0x80020706\<rparr>]]
             (answers [0x80040000, 0x80040010]) (answers [0x80050000])) 0x80030000
        \<noteq> Some (Done (OK, ret, s')))"
proof -
  have h: "owns (boot_kernel [[], [\<lparr>pid = 0x80030000, entry_hi = 0x1000, entry_lo = 0x80020706\<rparr>]]
           (answers [0x80040000, 0x80040010]) (answers [0x80050000])) 0x80030000"
    by (simp add: owns_def boot_kernel_def)
  show ?thesis
    using h as_copy_never_succeeds [OF h] by simp
qed

text \<open>
  C2. The claim: every operation completes or returns an explicit error, and \<^verbatim>\<open>as_copy\<close>
  ends when the source owns an entry. The code: when \<open>old\<close> owns an entry, none of its
  entries has a frame and the handle is allocated, \<^verbatim>\<open>as_copy\<close> returns nothing at all,
  neither 0 nor an error code, with any fuel: it runs on or traps. With a \<^verbatim>\<open>kmalloc\<close>
  that never fails it has not returned after any number of iterations.
\<close>

theorem as_copy_never_returns:
  assumes "owns s old" and "unassigned s old" and "kmalloc_ans s (kmalloc_cnt s) \<noteq> 0"
  shows "as_copy n c s old \<noteq> Some (Done r)
     \<and> ((\<forall>k. kmalloc_ans s k \<noteq> 0) \<longrightarrow> as_copy n c s old = None)"
proof -
  obtain newas s0 where cr: "as_create s = (newas, s0)"
    by (cases "as_create s")
  then have newas: "newas \<noteq> 0" and s0: "hpt s0 = hpt s" "kmalloc_ans s0 = kmalloc_ans s"
    using assms(3) by (auto simp: as_create_def kmalloc_def tlb_flush_def)
  have pend: "pending s0 old 0 0"
    using assms(1) s0(1) by (intro owns_pending) (simp add: owns_def)
  have un: "unassigned s0 old"
    using assms(2) s0(1) by (simp add: unassigned_def)
  have "as_copy_loop n c s0 old newas 0 0 \<noteq> Some (Done q)" for q
    using pend un by (rule as_copy_loop_unassigned)
  then have "as_copy n c s old \<noteq> Some (Done r)"
    using newas by (auto simp: as_copy_def cr split: option.splits outcome.splits if_splits)
  moreover have "as_copy n c s old = None" if "\<forall>k. kmalloc_ans s k \<noteq> 0"
  proof -
    have "as_copy_loop n c s0 old newas 0 0 = None"
      using pend un that by (intro as_copy_loop_spins) (simp_all add: s0(2))
    then show ?thesis
      using newas by (simp add: as_copy_def cr)
  qed
  ultimately show ?thesis
    by blast
qed

theorem as_copy_never_returns_witness:
  "owns (boot_kernel [[], [\<lparr>pid = 0x80030000, entry_hi = 0x1000, entry_lo = 0x706\<rparr>]]
           (\<lambda>n. 0x80040000) (answers [])) 0x80030000
   \<and> unassigned (boot_kernel [[], [\<lparr>pid = 0x80030000, entry_hi = 0x1000, entry_lo = 0x706\<rparr>]]
           (\<lambda>n. 0x80040000) (answers [])) 0x80030000
   \<and> (\<forall>n r. as_copy n example_macros
          (boot_kernel [[], [\<lparr>pid = 0x80030000, entry_hi = 0x1000, entry_lo = 0x706\<rparr>]]
             (\<lambda>n. 0x80040000) (answers [])) 0x80030000 \<noteq> Some (Done r))
   \<and> (\<forall>n. as_copy n example_macros
          (boot_kernel [[], [\<lparr>pid = 0x80030000, entry_hi = 0x1000, entry_lo = 0x706\<rparr>]]
             (\<lambda>n. 0x80040000) (answers [])) 0x80030000 = None)"
proof -
  let ?k = "boot_kernel [[], [\<lparr>pid = 0x80030000, entry_hi = 0x1000, entry_lo = 0x706\<rparr>]]
           (\<lambda>n. 0x80040000) (answers [])"
  have h1: "owns ?k 0x80030000"
    by (simp add: owns_def boot_kernel_def)
  have h2: "unassigned ?k 0x80030000"
    by (simp add: unassigned_def boot_kernel_def PAGE_FRAME_def)
  have h3: "kmalloc_ans ?k (kmalloc_cnt ?k) \<noteq> 0"
    by (simp add: boot_kernel_def)
  have h4: "\<forall>k. kmalloc_ans ?k k \<noteq> 0"
    by (simp add: boot_kernel_def)
  show ?thesis
    using h1 h2 h4 as_copy_never_returns [OF h1 h2 h3, of _ example_macros] by blast
qed

text \<open>
  C4. The claim: when an allocation fails in \<^verbatim>\<open>as_copy\<close>, the partly built destination
  is destroyed. The code, on a source with one entry that has a frame and a frame
  allocator that answers once: the entry is copied once, the second round at the same
  entry finds no frame and returns \<^verbatim>\<open>ENOMEM\<close>, and the copy stays in the table with its
  frame; neither \<^verbatim>\<open>free_kpages\<close> nor \<^verbatim>\<open>kfree\<close> has been called.
\<close>

theorem as_copy_frame_failure_keeps_copy:
  "(case as_copy 3 example_macros
          (boot_kernel [[], [\<lparr>pid = 0x80030000, entry_hi = 0x1000, entry_lo = 0x80020706\<rparr>]]
             (answers [0x80040000, 0x80040010]) (answers [0x80050000])) 0x80030000 of
      Some (Done (result, ret, s')) \<Rightarrow>
        result = ENOMEM \<and> ret = None
        \<and> hpt s' = [[], [\<lparr>pid = 0x80030000, entry_hi = 0x1000, entry_lo = 0x80020706\<rparr>,
                         \<lparr>pid = 0x80040000, entry_hi = 0x1000, entry_lo = 0x80050706\<rparr>]]
        \<and> freed_kpages s' = [] \<and> kfreed s' = []
    | _ \<Rightarrow> False)"
proof -
  have two: "n mod Suc (Suc 0) = n mod 2" for n :: nat
    by (simp add: numeral_2_eq_2)
  show ?thesis
    by (simp add: as_copy_def as_create_def kmalloc_def tlb_flush_def boot_kernel_def answers_def
      example_macros_def hpt_size_def Let_def alloc_kpages_def memmove_def
      insert_page_table_entry_eq hpt_hash_def new_entry_def PAGE_FRAME_def PAGE_BITS_def
      PAGE_SIZE_def numeral_3_eq_3 two)
qed

end
